theory Spec2Isabelle
  imports Complex_Main "HOL-Library.Sublist" "HOL-Library.Signed_Division"
begin

section \<open>The phonebook search program (phonebook\_mpi.cpp)\<close>

text \<open>
  Strings are byte lists. Sizes, positions and ranks are natural numbers: the source keeps
  them in \<open>int\<close> and \<open>size_t\<close> variables, and every string and vector it handles is
  assumed shorter than \<open>2^31\<close> elements (and \<open>total + size - 1\<close> below \<open>2^31\<close>), so
  that both types hold the same numbers and no \<open>int\<close> expression overflows. The one
  place where the arithmetic of the source leaves that range on short inputs, the
  \<open>substr\<close> counts of \<open>read_phonebook\<close>, is written out with its wrap-around.
\<close>

record Contact =
  name :: string
  phone :: string

abbreviation NL :: char where "NL \<equiv> CHR 0x0A"
abbreviation NUL :: char where "NUL \<equiv> CHR 0x00"
abbreviation QUOTE :: char where "QUOTE \<equiv> CHR 0x22"

subsection \<open>Library functions of the source\<close>

text \<open>\<open>std::string::find(str)\<close>: the lowest position at which \<open>pat\<close> occurs, or
  \<open>npos\<close> (here \<open>None\<close>). The empty pattern occurs at position 0 of every string.\<close>

fun string_find :: "string \<Rightarrow> string \<Rightarrow> nat option" where
  "string_find [] pat = (if pat = [] then Some 0 else None)"
| "string_find (c # cs) pat =
     (if prefix pat (c # cs) then Some 0 else map_option Suc (string_find cs pat))"

text \<open>\<open>while (getline(stream, line))\<close>: the lines the loop body sees. Characters are
  extracted up to a newline, which is consumed; hitting the end of the input after at least
  one character still yields that last line, hitting it at once ends the loop.\<close>

fun getlines_from :: "string \<Rightarrow> string \<Rightarrow> string list" where
  "getlines_from line [] = (if line = [] then [] else [line])"
| "getlines_from line (c # cs) =
     (if c = NL then line # getlines_from [] cs else getlines_from (line @ [c]) cs)"

definition getlines :: "string \<Rightarrow> string list" where
  "getlines text = getlines_from [] text"

subsection \<open>Framed string transfer\<close>

text \<open>A channel holds the messages sent from one rank to another under tag 1 and not yet
  received, oldest first. \<open>MPI_Send\<close> appends, \<open>MPI_Recv\<close> takes the oldest message; a
  receive with no matching message never returns, which is \<open>None\<close>.\<close>

datatype msg = MInt nat | MChars string

type_synonym channel = "msg list"

text \<open>\<open>send_string\<close>: the length \<open>text.size() + 1\<close>, then that many characters of
  \<open>text.c_str()\<close>, which are the text and its terminator.\<close>

definition send_string :: "string \<Rightarrow> channel \<Rightarrow> channel" where
  "send_string text ch =
     (let len = length text + 1
      in ch @ [MInt len, MChars (take len (text @ [NUL]))])"

text \<open>\<open>receive_string\<close>: the length, then the buffer; \<open>string res(buf)\<close> reads the
  buffer as a C string, up to its first NUL.\<close>

definition receive_string :: "channel \<Rightarrow> (string \<times> channel) option" where
  "receive_string ch =
     (case ch of
        MInt len # MChars payload # rest \<Rightarrow>
          (let buf = take len payload
           in Some (takeWhile (\<lambda>c. c \<noteq> NUL) buf, rest))
      | _ \<Rightarrow> None)"

subsection \<open>Record text format\<close>

text \<open>\<open>vector_to_string\<close>: the loop runs \<open>i\<close> from \<open>start\<close> while
  \<open>i < min(contacts.size(), end)\<close>.\<close>

definition vector_to_string :: "Contact list \<Rightarrow> nat \<Rightarrow> nat \<Rightarrow> string" where
  "vector_to_string contacts start end =
     concat (map (\<lambda>i. name (contacts ! i) @ '','' @ phone (contacts ! i) @ [NL])
                 [start ..< min (length contacts) end])"

text \<open>The line \<open>vector_to_string\<close> appends for one record.\<close>

definition encode_contact :: "Contact \<Rightarrow> string" where
  "encode_contact c = name c @ '','' @ phone c @ [NL]"

text \<open>One iteration of the loop of \<open>string_to_contacts\<close>: empty lines and lines without
  a comma are skipped, any other line is split at its first comma.\<close>

definition line_to_contact :: "string \<Rightarrow> Contact option" where
  "line_to_contact line =
     (if line = [] then None
      else case string_find line '','' of
             None \<Rightarrow> None
           | Some comma \<Rightarrow>
               Some \<lparr>name = take comma line, phone = drop (comma + 1) line\<rparr>)"

definition string_to_contacts :: "string \<Rightarrow> Contact list" where
  "string_to_contacts text = List.map_filter line_to_contact (getlines text)"

subsection \<open>Search kernel\<close>

definition check :: "Contact \<Rightarrow> string \<Rightarrow> string" where
  "check c search =
     (if string_find (name c) search \<noteq> None then name c @ '' '' @ phone c @ [NL] else [])"

subsection \<open>Reading the phonebook files\<close>

text \<open>\<open>std::string::substr(pos, n)\<close> throws \<open>std::out_of_range\<close> when \<open>pos\<close> is
  beyond the end of the string; nothing in the program catches it, so the process ends
  there.\<close>

datatype error = OutOfRange

definition substr :: "string \<Rightarrow> nat \<Rightarrow> nat \<Rightarrow> error + string" where
  "substr s pos n = (if pos > length s then Inl OutOfRange else Inr (take n (drop pos s)))"

text \<open>An \<open>int\<close> expression passed where a 64-bit \<open>size_t\<close> is expected.\<close>

definition size_t_of_int :: "int \<Rightarrow> nat" where
  "size_t_of_int i = nat (i mod 2 ^ 64)"

text \<open>One iteration of the inner loop of \<open>read_phonebook\<close>. The name is
  \<open>line.substr(1, comma - 2)\<close>, the phone is
  \<open>line.substr(comma + 2, line.size() - comma - 3)\<close>; the name is evaluated first.\<close>

definition phonebook_line :: "string \<Rightarrow> error + Contact option" where
  "phonebook_line line =
     (if line = [] then Inr None
      else case string_find line '','' of
             None \<Rightarrow> Inr None
           | Some comma \<Rightarrow>
               (case substr line 1 (size_t_of_int (int comma - 2)) of
                  Inl e \<Rightarrow> Inl e
                | Inr nm \<Rightarrow>
                    (case substr line (comma + 2)
                            (size_t_of_int (int (length line) - int comma - 3)) of
                       Inl e \<Rightarrow> Inl e
                     | Inr ph \<Rightarrow> Inr (Some \<lparr>name = nm, phone = ph\<rparr>))))"

fun read_lines :: "string list \<Rightarrow> Contact list \<Rightarrow> error + Contact list" where
  "read_lines [] contacts = Inr contacts"
| "read_lines (line # lines) contacts =
     (case phonebook_line line of
        Inl e \<Rightarrow> Inl e
      | Inr None \<Rightarrow> read_lines lines contacts
      | Inr (Some c) \<Rightarrow> read_lines lines (contacts @ [c]))"

text \<open>The files are given by their contents; a file that cannot be opened reads as
  empty.\<close>

fun read_phonebook :: "string list \<Rightarrow> Contact list \<Rightarrow> error + Contact list" where
  "read_phonebook [] contacts = Inr contacts"
| "read_phonebook (file # files) contacts =
     (case read_lines (getlines file) contacts of
        Inl e \<Rightarrow> Inl e
      | Inr contacts' \<Rightarrow> read_phonebook files contacts')"

subsection \<open>The coordinator and the workers (\<open>main\<close>, after the argument check)\<close>

text \<open>\<open>int chunk = (total + size - 1) / size\<close>; the variables \<open>total\<close> and
  \<open>size\<close> of the source are \<open>tot\<close> and \<open>nprocs\<close> here.\<close>

definition chunk_size :: "nat \<Rightarrow> nat \<Rightarrow> nat" where
  "chunk_size tot nprocs = (tot + nprocs - 1) div nprocs"

text \<open>The records rank \<open>i\<close> works on, as positions in the coordinator's vector: the
  coordinator's own loop runs over \<open>[0, min(chunk, total))\<close>, and the text for worker
  \<open>i\<close> is built by the loop of \<open>vector_to_string\<close> called with \<open>i * chunk\<close> and
  \<open>(i + 1) * chunk\<close>.\<close>

definition rank_indices :: "nat \<Rightarrow> nat \<Rightarrow> nat \<Rightarrow> nat list" where
  "rank_indices tot nprocs i =
     (let chunk = chunk_size tot nprocs
      in if i = 0 then [0 ..< min chunk tot]
         else [i * chunk ..< min tot ((i + 1) * chunk)])"

text \<open>The body shared by both search loops: \<open>if (!match.empty()) result += match\<close>.\<close>

definition add_match :: "string \<Rightarrow> string \<Rightarrow> string" where
  "add_match result match = (if match \<noteq> [] then result @ match else result)"

definition master_local :: "Contact list \<Rightarrow> nat \<Rightarrow> string \<Rightarrow> string" where
  "master_local contacts chunk search =
     foldl (\<lambda>result i. add_match result (check (contacts ! i) search)) []
           [0 ..< min chunk (length contacts)]"

definition worker_search :: "Contact list \<Rightarrow> string \<Rightarrow> string" where
  "worker_search contacts search =
     foldl (\<lambda>result c. add_match result (check c search)) [] contacts"

text \<open>The coordinator's send loop over the worker ranks; \<open>down i\<close> is the channel from
  rank 0 to rank \<open>i\<close>.\<close>

definition master_distribute :: "Contact list \<Rightarrow> nat \<Rightarrow> (nat \<Rightarrow> channel) \<Rightarrow> nat \<Rightarrow> channel" where
  "master_distribute contacts nprocs down =
     (let chunk = chunk_size (length contacts) nprocs
      in foldl (\<lambda>d i. d(i := send_string
                                (vector_to_string contacts (i * chunk) ((i + 1) * chunk)) (d i)))
               down [1 ..< nprocs])"

text \<open>A worker: receive the text, decode it, search, send the hits back. The result is the
  rest of its inbound channel and its outbound channel.\<close>

definition worker :: "string \<Rightarrow> channel \<Rightarrow> channel \<Rightarrow> (channel \<times> channel) option" where
  "worker search inbox outbox =
     (case receive_string inbox of
        None \<Rightarrow> None
      | Some (recv_text, inbox') \<Rightarrow>
          (let contacts = string_to_contacts recv_text;
               result = worker_search contacts search
           in Some (inbox', send_string result outbox)))"

text \<open>The coordinator's receive loop; \<open>up i\<close> is the channel from rank \<open>i\<close> to
  rank 0.\<close>

fun master_collect :: "nat list \<Rightarrow> (nat \<Rightarrow> channel) \<Rightarrow> string \<Rightarrow> string option" where
  "master_collect [] up result = Some result"
| "master_collect (i # ranks) up result =
     (case receive_string (up i) of
        None \<Rightarrow> None
      | Some (recv, rest) \<Rightarrow> master_collect ranks (up(i := rest)) (add_match result recv))"

text \<open>A whole run on \<open>size\<close> ranks: what the coordinator writes to the output file.\<close>

definition phonebook_run :: "Contact list \<Rightarrow> nat \<Rightarrow> string \<Rightarrow> string option" where
  "phonebook_run contacts nprocs search =
     (let chunk = chunk_size (length contacts) nprocs;
          down = master_distribute contacts nprocs (\<lambda>_. []);
          result = master_local contacts chunk search;
          up = (\<lambda>i. case worker search (down i) [] of None \<Rightarrow> [] | Some (_, outbox) \<Rightarrow> outbox)
      in master_collect [1 ..< nprocs] up result)"

section \<open>The matrix multiplication program (matrix\_mul\_mpi.c)\<close>

text \<open>
  The arrays \<open>A[K][M][N]\<close>, \<open>B[K][N][P]\<close> and \<open>R[K][M][P]\<close> are the flat row-major
  buffers that \<open>MPI_Scatter\<close> and \<open>MPI_Gather\<close> see: element \<open>[k][i][j]\<close> of an array
  with inner dimensions \<open>M\<close> and \<open>N\<close> is at position \<open>(k * M + i) * N + j\<close>. Elements
  are mathematical integers; \<open>%\<close> is C's remainder, which takes the sign of the dividend.
  The source fixes \<open>K = 100\<close> and \<open>M = N = P = 50\<close>; they are parameters here.
\<close>

definition local_cell ::
  "nat \<Rightarrow> nat \<Rightarrow> nat \<Rightarrow> int list \<Rightarrow> int list \<Rightarrow> nat \<Rightarrow> nat \<Rightarrow> nat \<Rightarrow> int" where
  "local_cell M N P localA localB k i j =
     (foldl (\<lambda>r l. r + (localA ! ((k * M + i) * N + l) * localB ! ((k * N + l) * P + j)) smod 100)
            0 [0 ..< N]) smod 100"

text \<open>The loops over \<open>i\<close> and \<open>j\<close> fill the cells of the \<open>k\<close>-th result matrix
  in row-major order, each cell once; the loop over \<open>k\<close> does so for the local matrices
  in turn.\<close>

definition one_matrix ::
  "nat \<Rightarrow> nat \<Rightarrow> nat \<Rightarrow> int list \<Rightarrow> int list \<Rightarrow> nat \<Rightarrow> int list" where
  "one_matrix M N P localA localB k =
     concat (map (\<lambda>i. map (\<lambda>j. local_cell M N P localA localB k i j) [0 ..< P]) [0 ..< M])"

definition matrix_kernel ::
  "nat \<Rightarrow> nat \<Rightarrow> nat \<Rightarrow> nat \<Rightarrow> int list \<Rightarrow> int list \<Rightarrow> int list" where
  "matrix_kernel Kl M N P localA localB =
     concat (map (one_matrix M N P localA localB) [0 ..< Kl])"

text \<open>\<open>MPI_Scatter\<close> with \<open>count\<close> elements per rank: rank \<open>r\<close> receives the
  \<open>r\<close>-th block of the root's buffer. \<open>MPI_Gather\<close>: the root's buffer is the ranks'
  contributions in rank order.\<close>

definition scatter_block :: "int list \<Rightarrow> nat \<Rightarrow> nat \<Rightarrow> int list" where
  "scatter_block buf count r = take count (drop (r * count) buf)"

definition gather :: "(nat \<Rightarrow> int list) \<Rightarrow> nat \<Rightarrow> int list" where
  "gather contribution nprocs = concat (map contribution [0 ..< nprocs])"

datatype event =
  Bcast | PrintNotDivisible | Scatter | Compute | Gather | Barrier | PrintTime | Finalize

record outcome =
  exit_code :: int
  events :: "event list"
  gathered :: "int list option"

text \<open>A run on \<open>size\<close> ranks. Every rank holds the same \<open>K\<close> and \<open>size\<close>, so every
  rank takes the same branch and goes through the same calls; \<open>gathered\<close> is the buffer
  \<open>R\<close> of rank 0 after \<open>MPI_Gather\<close>.\<close>

definition matrix_run ::
  "nat \<Rightarrow> nat \<Rightarrow> nat \<Rightarrow> nat \<Rightarrow> nat \<Rightarrow> int list \<Rightarrow> int list \<Rightarrow> outcome" where
  "matrix_run K M N P nprocs A B =
     (if K mod nprocs \<noteq> 0
      then \<lparr>exit_code = 1,
            events = [Bcast, Bcast, Bcast, Bcast, PrintNotDivisible, Finalize],
            gathered = None\<rparr>
      else
        let localA = (\<lambda>r. scatter_block A ((K div nprocs) * M * N) r);
            localB = (\<lambda>r. scatter_block B ((K div nprocs) * N * P) r);
            localR = (\<lambda>r. matrix_kernel (K div nprocs) M N P (localA r) (localB r))
        in \<lparr>exit_code = 0,
             events = [Bcast, Bcast, Bcast, Bcast, Scatter, Scatter, Compute, Gather,
                       Barrier, PrintTime, Finalize],
             gathered = Some (gather localR nprocs)\<rparr>)"

section \<open>Properties\<close>

subsection \<open>Substring search\<close>

lemma string_find_None_iff: "string_find s pat = None \<longleftrightarrow> \<not> sublist pat s"
proof (induction s)
  case Nil
  show ?case by simp
next
  case (Cons c cs)
  show ?case using Cons.IH by (auto simp: sublist_Cons_right)
qed

text \<open>
  Claim C8. The search kernel returns the line made of the two fields, a space between
  them and a newline after them, exactly when the query occurs somewhere in the name as a
  contiguous substring, and the empty string otherwise. The record (Bob Marley, 555-1212)
  gives that line for the query Bob and the empty string for the query Zed.
\<close>

theorem check_substring:
  "check c search = (if sublist search (name c) then name c @ '' '' @ phone c @ [NL] else [])
   \<and> check \<lparr>name = ''Bob Marley'', phone = ''555-1212''\<rparr> ''Bob''
       = ''Bob Marley 555-1212'' @ [NL]
   \<and> check \<lparr>name = ''Bob Marley'', phone = ''555-1212''\<rparr> ''Zed'' = []"
  by (simp add: check_def string_find_None_iff)

subsection \<open>Framed string transfer\<close>

lemma receive_send_string:
  "receive_string (send_string text []) = Some (takeWhile (\<lambda>c. c \<noteq> NUL) text, [])"
  by (simp add: send_string_def receive_string_def takeWhile_tail)

text \<open>
  Claim C10. A string sent with send_string and received by the matching receive_string
  arrives as its prefix before the first NUL byte, and the two messages are consumed: a
  string without a NUL byte arrives unchanged, and a string with an embedded NUL byte
  arrives cut just before the first one.
\<close>

theorem framed_transfer_roundtrip:
  "receive_string (send_string text []) = Some (takeWhile (\<lambda>c. c \<noteq> NUL) text, [])
   \<and> (NUL \<notin> set text \<longrightarrow> receive_string (send_string text []) = Some (text, []))
   \<and> (NUL \<notin> set pre \<longrightarrow>
        receive_string (send_string (pre @ NUL # post) []) = Some (pre, []))"
  by (auto simp: send_string_def receive_string_def takeWhile_tail)

theorem framed_transfer_roundtrip_witness:
  "NUL \<notin> set ''Ann,123'' \<and> NUL \<notin> set ''Ann''
   \<and> receive_string (send_string ''Ann,123'' []) = Some (''Ann,123'', [])
   \<and> receive_string (send_string (''Ann'' @ NUL # ''123'') []) = Some (''Ann'', [])"
  using framed_transfer_roundtrip [of "''Ann,123''" "''Ann''" "''123''"] by simp

subsection \<open>Record text format\<close>

lemma map_nth_slice:
  "n \<le> length xs \<Longrightarrow> map (\<lambda>i. xs ! i) [a ..< n] = take (n - a) (drop a xs)"
  by (rule nth_equalityI) (auto simp: add.commute)

lemma vector_to_string_indices:
  "vector_to_string contacts start end =
     concat (map (\<lambda>i. encode_contact (contacts ! i)) [start ..< min (length contacts) end])"
  by (simp add: vector_to_string_def encode_contact_def)

lemma vector_to_string_slice:
  "vector_to_string contacts start end =
     concat (map encode_contact
               (take (min (length contacts) end - start) (drop start contacts)))"
proof -
  let ?n = "min (length contacts) end"
  have "map encode_contact (take (?n - start) (drop start contacts))
        = map encode_contact (map (\<lambda>i. contacts ! i) [start ..< ?n])"
    by (simp only: map_nth_slice [of ?n contacts start, OF min.cobounded1])
  then show ?thesis
    by (simp add: vector_to_string_indices comp_def)
qed

lemma getlines_from_line:
  "NL \<notin> set l \<Longrightarrow> getlines_from acc (l @ NL # rest) = (acc @ l) # getlines_from [] rest"
  by (induction l arbitrary: acc) auto

lemma string_find_comma:
  "CHR '','' \<notin> set n \<Longrightarrow> string_find (n @ CHR '','' # p) '','' = Some (length n)"
  by (induction n) auto

lemma line_to_contact_encoded:
  "CHR '','' \<notin> set n \<Longrightarrow> line_to_contact (n @ CHR '','' # p) = Some \<lparr>name = n, phone = p\<rparr>"
  by (simp add: line_to_contact_def string_find_comma)

lemma decode_encoded:
  assumes "\<forall>c \<in> set cs. CHR '','' \<notin> set (name c) \<and> NL \<notin> set (name c) \<and> NL \<notin> set (phone c)"
  shows "string_to_contacts (concat (map encode_contact cs)) = cs"
  using assms
proof (induction cs)
  case Nil
  show ?case by (simp add: string_to_contacts_def getlines_def map_filter_simps)
next
  case (Cons c cs)
  have nl: "NL \<notin> set (name c @ CHR '','' # phone c)" using Cons.prems by simp
  have "getlines (concat (map encode_contact (c # cs)))
        = (name c @ CHR '','' # phone c) # getlines (concat (map encode_contact cs))"
    using getlines_from_line [OF nl, of "[]"] by (simp add: getlines_def encode_contact_def)
  moreover have "line_to_contact (name c @ CHR '','' # phone c) = Some c"
    using Cons.prems by (simp add: line_to_contact_encoded)
  ultimately show ?case using Cons by (simp add: string_to_contacts_def map_filter_simps)
qed

text \<open>
  Claim C5. A list of records none of whose fields contains a comma or a newline, written
  out by vector_to_string over its whole length and read back by string_to_contacts, is
  the list again. The two records (Ann, 123) and (Bob, 456) are written as the two lines
  Ann,123 and Bob,456, each ended by a newline, and that text reads back as the two
  records.
\<close>

theorem record_text_roundtrip:
  "((\<forall>c \<in> set cs. CHR '','' \<notin> set (name c) \<and> CHR '','' \<notin> set (phone c)
                  \<and> NL \<notin> set (name c) \<and> NL \<notin> set (phone c))
     \<longrightarrow> string_to_contacts (vector_to_string cs 0 (length cs)) = cs)
   \<and> vector_to_string [\<lparr>name = ''Ann'', phone = ''123''\<rparr>, \<lparr>name = ''Bob'', phone = ''456''\<rparr>] 0 2
       = ''Ann,123'' @ [NL] @ ''Bob,456'' @ [NL]
   \<and> string_to_contacts (''Ann,123'' @ [NL] @ ''Bob,456'' @ [NL])
       = [\<lparr>name = ''Ann'', phone = ''123''\<rparr>, \<lparr>name = ''Bob'', phone = ''456''\<rparr>]"
proof (intro conjI impI)
  assume "\<forall>c \<in> set cs. CHR '','' \<notin> set (name c) \<and> CHR '','' \<notin> set (phone c)
                        \<and> NL \<notin> set (name c) \<and> NL \<notin> set (phone c)"
  then have "string_to_contacts (concat (map encode_contact cs)) = cs"
    by (intro decode_encoded) simp
  then show "string_to_contacts (vector_to_string cs 0 (length cs)) = cs"
    by (simp add: vector_to_string_slice)
next
  show "vector_to_string [\<lparr>name = ''Ann'', phone = ''123''\<rparr>, \<lparr>name = ''Bob'', phone = ''456''\<rparr>] 0 2
        = ''Ann,123'' @ [NL] @ ''Bob,456'' @ [NL]"
    by (simp add: vector_to_string_def upt_rec)
next
  show "string_to_contacts (''Ann,123'' @ [NL] @ ''Bob,456'' @ [NL])
        = [\<lparr>name = ''Ann'', phone = ''123''\<rparr>, \<lparr>name = ''Bob'', phone = ''456''\<rparr>]"
    by (simp add: string_to_contacts_def getlines_def map_filter_simps line_to_contact_def)
qed

theorem record_text_roundtrip_witness:
  "string_to_contacts
        (vector_to_string [\<lparr>name = ''Al'', phone = ''7''\<rparr>, \<lparr>name = [], phone = []\<rparr>] 0
           (length [\<lparr>name = ''Al'', phone = ''7''\<rparr>, \<lparr>name = [], phone = []\<rparr>]))
       = [\<lparr>name = ''Al'', phone = ''7''\<rparr>, \<lparr>name = [], phone = []\<rparr>]"
  using record_text_roundtrip [of "[\<lparr>name = ''Al'', phone = ''7''\<rparr>, \<lparr>name = [], phone = []\<rparr>]"]
  by simp

subsection \<open>Tolerant partitioning\<close>

lemma chunk_covers: "1 \<le> S \<Longrightarrow> T \<le> S * chunk_size T S"
proof -
  assume S: "1 \<le> S"
  have "T + S - 1 = S * ((T + S - 1) div S) + (T + S - 1) mod S" by simp
  moreover have "(T + S - 1) mod S < S" using S by simp
  ultimately show ?thesis unfolding chunk_size_def by linarith
qed

lemma chunk_size_ceiling:
  assumes "1 \<le> S"
  shows "chunk_size T S = nat \<lceil>real T / real S\<rceil>"
proof -
  let ?c = "chunk_size T S"
  have S: "0 < real S" using assms by simp
  have "T \<le> S * ?c" by (rule chunk_covers [OF assms])
  then have "real T \<le> real S * real ?c" by (metis of_nat_mult of_nat_le_iff)
  then have up: "real T / real S \<le> real ?c" using S by (simp add: pos_divide_le_eq mult.commute)
  have "?c * S \<le> T + S - 1" unfolding chunk_size_def by simp
  then have "?c * S < T + S" using assms by linarith
  then have "real ?c * real S < real T + real S"
    by (metis of_nat_mult of_nat_add of_nat_less_iff)
  then have "(real ?c - 1) * real S < real T" by (simp add: algebra_simps)
  then have lo: "real ?c - 1 < real T / real S" using S by (simp add: pos_less_divide_eq)
  have "\<lceil>real T / real S\<rceil> = int ?c" by (rule ceiling_unique) (use lo up in simp_all)
  then show ?thesis by simp
qed

lemma rank_indices_range:
  "rank_indices T S i = [i * chunk_size T S ..< min ((i + 1) * chunk_size T S) T]"
  by (simp add: rank_indices_def Let_def min.commute)

lemma tiles_prefix:
  "concat (map (rank_indices T S) [0 ..< k]) = [0 ..< min (k * chunk_size T S) T]"
proof (induction k)
  case 0
  show ?case by simp
next
  case (Suc k)
  let ?c = "chunk_size T S"
  show ?case
  proof (cases "k * ?c \<le> T")
    case True
    then have le: "k * ?c \<le> min (Suc k * ?c) T" by simp
    have "[0 ..< k * ?c + (min (Suc k * ?c) T - k * ?c)]
          = [0 ..< k * ?c] @ [k * ?c ..< k * ?c + (min (Suc k * ?c) T - k * ?c)]"
      by (rule upt_add_eq_append) simp
    with le True have "[0 ..< min (k * ?c) T] @ [k * ?c ..< min (Suc k * ?c) T]
                       = [0 ..< min (Suc k * ?c) T]"
      by (simp add: min_def split: if_splits)
    then show ?thesis using Suc by (simp add: rank_indices_range)
  next
    case False
    then show ?thesis using Suc by (simp add: rank_indices_range min_def)
  qed
qed

lemma ranks_tile: "1 \<le> S \<Longrightarrow> concat (map (rank_indices T S) [0 ..< S]) = [0 ..< T]"
  using chunk_covers [of S T] by (simp add: tiles_prefix min_def)

subsection \<open>What a worker is sent\<close>

lemma foldl_update_distinct:
  "distinct xs \<Longrightarrow>
     foldl (\<lambda>d i. d(i := f i (d i))) down xs j = (if j \<in> set xs then f j (down j) else down j)"
  by (induction xs arbitrary: down) auto

lemma master_distribute_channel:
  "master_distribute contacts S down i =
     (if 1 \<le> i \<and> i < S
      then send_string (vector_to_string contacts (i * chunk_size (length contacts) S)
                                         ((i + 1) * chunk_size (length contacts) S)) (down i)
      else down i)"
  unfolding master_distribute_def Let_def
  by (subst foldl_update_distinct) auto

lemma vector_to_string_rank:
  "1 \<le> i \<Longrightarrow>
   vector_to_string contacts (i * chunk_size (length contacts) S)
                             ((i + 1) * chunk_size (length contacts) S)
   = concat (map (\<lambda>j. encode_contact (contacts ! j)) (rank_indices (length contacts) S i))"
  by (simp add: vector_to_string_indices rank_indices_def Let_def)

lemma master_distribute_rank:
  assumes "1 \<le> i" and "i < S"
  shows "master_distribute contacts S down i
         = send_string (concat (map (\<lambda>j. encode_contact (contacts ! j))
                                    (rank_indices (length contacts) S i))) (down i)"
proof -
  have "master_distribute contacts S down i
        = send_string (vector_to_string contacts (i * chunk_size (length contacts) S)
                                         ((i + 1) * chunk_size (length contacts) S)) (down i)"
    by (simp only: master_distribute_channel assms simp_thms if_True)
  then show ?thesis by (simp only: vector_to_string_rank [OF assms(1)])
qed

text \<open>
  Claim C9. For a worker rank i >= 1, what the coordinator puts on the channel to rank i is
  the framed text of the records at the positions of rank i's own partition, from
  i * chunk up to, not including, min((i + 1) * chunk, T), and of nothing else: two datasets
  of the same size that agree on those positions put the same messages on that channel.
\<close>

theorem worker_sees_own_partition:
  assumes "1 \<le> i" and "i < S" and "length cs = T" and "length cs' = T"
    and "\<forall>j \<in> set (rank_indices T S i). cs ! j = cs' ! j"
  shows "master_distribute cs S (\<lambda>_. []) i = master_distribute cs' S (\<lambda>_. []) i
       \<and> master_distribute cs S (\<lambda>_. []) i
           = send_string (concat (map (\<lambda>j. encode_contact (cs ! j)) (rank_indices T S i))) []
       \<and> set (rank_indices T S i) = {j. i * chunk_size T S \<le> j \<and> j < min ((i + 1) * chunk_size T S) T}"
proof -
  have eq: "map (\<lambda>j. encode_contact (cs ! j)) (rank_indices T S i)
          = map (\<lambda>j. encode_contact (cs' ! j)) (rank_indices T S i)"
    using assms(5) by simp
  have a: "master_distribute cs S (\<lambda>_. []) i
           = send_string (concat (map (\<lambda>j. encode_contact (cs ! j)) (rank_indices T S i))) []"
    using master_distribute_rank [OF assms(1,2), of cs] assms(3) by simp
  have b: "master_distribute cs' S (\<lambda>_. []) i
           = send_string (concat (map (\<lambda>j. encode_contact (cs' ! j)) (rank_indices T S i))) []"
    using master_distribute_rank [OF assms(1,2), of cs'] assms(4) by simp
  have c: "set (rank_indices T S i) = {j. i * chunk_size T S \<le> j \<and> j < min ((i + 1) * chunk_size T S) T}"
    by (auto simp: rank_indices_range)
  from a b eq have "master_distribute cs S (\<lambda>_. []) i = master_distribute cs' S (\<lambda>_. []) i"
    by (simp only:)
  with a c show ?thesis by (intro conjI)
qed

lemma add_match_append: "add_match result match = result @ match"
  by (simp add: add_match_def)

lemma foldl_append_concat: "foldl (\<lambda>r x. r @ f x) acc xs = acc @ concat (map f xs)"
  by (induction xs arbitrary: acc) simp_all

lemma worker_search_concat:
  "worker_search contacts search = concat (map (\<lambda>c. check c search) contacts)"
  by (simp add: worker_search_def add_match_append foldl_append_concat)

lemma master_local_concat:
  "master_local contacts (chunk_size (length contacts) S) search
   = concat (map (\<lambda>j. check (contacts ! j) search) (rank_indices (length contacts) S 0))"
  by (simp add: master_local_def add_match_append foldl_append_concat rank_indices_def)

lemma master_collect_all:
  assumes "distinct ranks"
    and "\<forall>i \<in> set ranks. up i = send_string (res i) [] \<and> NUL \<notin> set (res i)"
  shows "master_collect ranks up result = Some (result @ concat (map res ranks))"
  using assms
proof (induction ranks arbitrary: up result)
  case Nil
  show ?case by simp
next
  case (Cons i ranks)
  have r: "receive_string (up i) = Some (res i, [])"
    using Cons.prems(2) by (auto simp: receive_send_string)
  have "master_collect ranks (up(i := [])) (result @ res i)
        = Some ((result @ res i) @ concat (map res ranks))"
    using Cons.prems by (intro Cons.IH) auto
  then show ?case using r by (simp add: add_match_append)
qed

theorem worker_sees_own_partition_witness:
  "(1::nat) \<le> 1 \<and> (1::nat) < 2
   \<and> rank_indices 2 2 1 = [1]
   \<and> master_distribute [\<lparr>name = ''Ann'', phone = ''1''\<rparr>, \<lparr>name = ''Bob'', phone = ''2''\<rparr>] 2 (\<lambda>_. []) 1
     = master_distribute [\<lparr>name = ''Zed'', phone = ''9''\<rparr>, \<lparr>name = ''Bob'', phone = ''2''\<rparr>] 2 (\<lambda>_. []) 1
   \<and> master_distribute [\<lparr>name = ''Ann'', phone = ''1''\<rparr>, \<lparr>name = ''Bob'', phone = ''2''\<rparr>] 2 (\<lambda>_. []) 1
     = send_string (''Bob,2'' @ [NL]) []"
proof -
  let ?cs = "[\<lparr>name = ''Ann'', phone = ''1''\<rparr>, \<lparr>name = ''Bob'', phone = ''2''\<rparr>]"
  let ?cs' = "[\<lparr>name = ''Zed'', phone = ''9''\<rparr>, \<lparr>name = ''Bob'', phone = ''2''\<rparr>]"
  have idx: "rank_indices 2 2 1 = [1]"
    by (simp add: rank_indices_def chunk_size_def)
  have h: "\<forall>j \<in> set (rank_indices 2 2 1). ?cs ! j = ?cs' ! j"
    unfolding idx by simp
  have enc: "concat (map (\<lambda>j. encode_contact (?cs ! j)) (rank_indices 2 2 1)) = ''Bob,2'' @ [NL]"
    unfolding idx by (simp add: encode_contact_def)
  have len: "length ?cs = 2" "length ?cs' = 2" by simp_all
  have one: "(1::nat) \<le> 1" "(1::nat) < 2" by simp_all
  note w = worker_sees_own_partition [OF one len h]
  have A: "master_distribute ?cs 2 (\<lambda>_. []) 1 = master_distribute ?cs' 2 (\<lambda>_. []) 1"
    using w by (rule conjunct1)
  have B: "master_distribute ?cs 2 (\<lambda>_. []) 1 = send_string (''Bob,2'' @ [NL]) []"
    using w [THEN conjunct2, THEN conjunct1] unfolding enc .
  show ?thesis
    by (intro conjI one idx A B)
qed

subsection \<open>How the records are divided\<close>

lemma loops_follow_rank_indices:
  assumes "length contacts = T"
  shows "master_local contacts (chunk_size T S) search
           = concat (map (\<lambda>j. check (contacts ! j) search) (rank_indices T S 0))"
    and "1 \<le> i \<Longrightarrow> i < S \<Longrightarrow>
         master_distribute contacts S (\<lambda>_. []) i
           = send_string (vector_to_string contacts (i * chunk_size T S) ((i + 1) * chunk_size T S)) []"
    and "1 \<le> i \<Longrightarrow>
         vector_to_string contacts (i * chunk_size T S) ((i + 1) * chunk_size T S)
           = concat (map (\<lambda>j. encode_contact (contacts ! j)) (rank_indices T S i))"
proof -
  show "master_local contacts (chunk_size T S) search
           = concat (map (\<lambda>j. check (contacts ! j) search) (rank_indices T S 0))"
    using master_local_concat [of contacts S search] assms by simp
  show "master_distribute contacts S (\<lambda>_. []) i
           = send_string (vector_to_string contacts (i * chunk_size T S) ((i + 1) * chunk_size T S)) []"
    if "1 \<le> i" "i < S"
    using that assms by (simp only: master_distribute_channel simp_thms if_True)
  show "vector_to_string contacts (i * chunk_size T S) ((i + 1) * chunk_size T S)
           = concat (map (\<lambda>j. encode_contact (contacts ! j)) (rank_indices T S i))"
    if "1 \<le> i"
    using vector_to_string_rank [OF that, of contacts S] assms by simp
qed

lemma blocks_make_dataset:
  assumes "1 \<le> S" and "length contacts = T"
  shows "concat (map (\<lambda>i. map (\<lambda>j. contacts ! j) (rank_indices T S i)) [0 ..< S]) = contacts"
proof -
  have "concat (map (\<lambda>i. map (\<lambda>j. contacts ! j) (rank_indices T S i)) [0 ..< S])
        = map (\<lambda>j. contacts ! j) (concat (map (rank_indices T S) [0 ..< S]))"
    by (simp add: map_concat comp_def)
  also have "\<dots> = map (\<lambda>j. contacts ! j) [0 ..< length contacts]"
    by (simp only: ranks_tile [OF assms(1)] assms(2))
  also have "\<dots> = contacts" by (rule map_nth)
  finally show ?thesis .
qed

text \<open>
  Claim C1. With T records and S >= 1 ranks and chunk = ceil(T / S), the coordinator's own
  search loop works on the records at the positions of rank 0, and the text it builds with
  vector_to_string and sends to each worker rank i holds the records at the positions of
  rank i; rank i's positions run from i * chunk up to, not including,
  min((i + 1) * chunk, T), which may be fewer than chunk positions or none. The position
  lists of the ranks 0, ..., S - 1, put one after the other in rank order, are exactly
  0, 1, ..., T - 1, and the blocks of records put one after the other are the dataset:
  every record is handed out once, in order, so the ranges neither overlap nor leave a gap.
\<close>

theorem tolerant_tiling:
  assumes "1 \<le> S" and "length contacts = T"
  shows "master_local contacts (chunk_size T S) search
           = concat (map (\<lambda>j. check (contacts ! j) search) (rank_indices T S 0))
       \<and> (\<forall>i. 1 \<le> i \<and> i < S \<longrightarrow>
             master_distribute contacts S (\<lambda>_. []) i
               = send_string (vector_to_string contacts (i * chunk_size T S)
                                                ((i + 1) * chunk_size T S)) []
             \<and> vector_to_string contacts (i * chunk_size T S) ((i + 1) * chunk_size T S)
               = concat (map (\<lambda>j. encode_contact (contacts ! j)) (rank_indices T S i)))
       \<and> concat (map (rank_indices T S) [0 ..< S]) = [0 ..< T]
       \<and> concat (map (\<lambda>i. map (\<lambda>j. contacts ! j) (rank_indices T S i)) [0 ..< S]) = contacts
       \<and> (\<forall>i < S. rank_indices T S i
                    = [i * chunk_size T S ..< min ((i + 1) * chunk_size T S) T])
       \<and> chunk_size T S = nat \<lceil>real T / real S\<rceil>"
proof (intro conjI allI impI)
  show "master_local contacts (chunk_size T S) search
           = concat (map (\<lambda>j. check (contacts ! j) search) (rank_indices T S 0))"
    by (rule loops_follow_rank_indices(1) [OF assms(2)])
next
  fix i assume i: "1 \<le> i \<and> i < S"
  show "master_distribute contacts S (\<lambda>_. []) i
               = send_string (vector_to_string contacts (i * chunk_size T S)
                                                ((i + 1) * chunk_size T S)) []"
    using i by (intro loops_follow_rank_indices(2) [OF assms(2)]) simp_all
  show "vector_to_string contacts (i * chunk_size T S) ((i + 1) * chunk_size T S)
               = concat (map (\<lambda>j. encode_contact (contacts ! j)) (rank_indices T S i))"
    using i by (intro loops_follow_rank_indices(3) [OF assms(2)]) simp
next
  show "concat (map (rank_indices T S) [0 ..< S]) = [0 ..< T]"
    by (rule ranks_tile [OF assms(1)])
  show "concat (map (\<lambda>i. map (\<lambda>j. contacts ! j) (rank_indices T S i)) [0 ..< S]) = contacts"
    by (rule blocks_make_dataset [OF assms])
  show "chunk_size T S = nat \<lceil>real T / real S\<rceil>"
    by (rule chunk_size_ceiling [OF assms(1)])
next
  fix i
  show "rank_indices T S i = [i * chunk_size T S ..< min ((i + 1) * chunk_size T S) T]"
    by (rule rank_indices_range)
qed

theorem tolerant_tiling_witness:
  "(1::nat) \<le> 4
   \<and> length [\<lparr>name = ''a'', phone = ''1''\<rparr>, \<lparr>name = ''b'', phone = ''2''\<rparr>,
              \<lparr>name = ''c'', phone = ''3''\<rparr>, \<lparr>name = ''d'', phone = ''4''\<rparr>,
              \<lparr>name = ''e'', phone = ''5''\<rparr>] = 5
   \<and> concat (map (rank_indices 5 4) [0 ..< 4]) = [0 ..< 5]
   \<and> master_local [\<lparr>name = ''a'', phone = ''1''\<rparr>, \<lparr>name = ''b'', phone = ''2''\<rparr>,
              \<lparr>name = ''c'', phone = ''3''\<rparr>, \<lparr>name = ''d'', phone = ''4''\<rparr>,
              \<lparr>name = ''e'', phone = ''5''\<rparr>] (chunk_size 5 4) ''b'' = ''b 2'' @ [NL]
   \<and> master_distribute [\<lparr>name = ''a'', phone = ''1''\<rparr>, \<lparr>name = ''b'', phone = ''2''\<rparr>,
              \<lparr>name = ''c'', phone = ''3''\<rparr>, \<lparr>name = ''d'', phone = ''4''\<rparr>,
              \<lparr>name = ''e'', phone = ''5''\<rparr>] 4 (\<lambda>_. []) 2 = send_string (''e,5'' @ [NL]) []
   \<and> master_distribute [\<lparr>name = ''a'', phone = ''1''\<rparr>, \<lparr>name = ''b'', phone = ''2''\<rparr>,
              \<lparr>name = ''c'', phone = ''3''\<rparr>, \<lparr>name = ''d'', phone = ''4''\<rparr>,
              \<lparr>name = ''e'', phone = ''5''\<rparr>] 4 (\<lambda>_. []) 3 = send_string [] []"
proof -
  let ?cs = "[\<lparr>name = ''a'', phone = ''1''\<rparr>, \<lparr>name = ''b'', phone = ''2''\<rparr>,
              \<lparr>name = ''c'', phone = ''3''\<rparr>, \<lparr>name = ''d'', phone = ''4''\<rparr>,
              \<lparr>name = ''e'', phone = ''5''\<rparr>]"
  have one: "(1::nat) \<le> 4" by simp
  have len: "length ?cs = 5" by simp
  note w = tolerant_tiling [OF one len, of "''b''"]
  have idx0: "rank_indices 5 4 0 = [0, 1]"
    by (simp add: rank_indices_def chunk_size_def upt_rec)
  have idx2: "rank_indices 5 4 2 = [4]"
    by (simp add: rank_indices_def chunk_size_def)
  have idx3: "rank_indices 5 4 3 = []"
    by (simp add: rank_indices_def chunk_size_def)
  have t: "concat (map (rank_indices 5 4) [0 ..< 4]) = [0 ..< 5]"
    using w by (elim conjE)
  have "master_local ?cs (chunk_size 5 4) ''b''
        = concat (map (\<lambda>j. check (?cs ! j) ''b'') (rank_indices 5 4 0))"
    using w by (elim conjE)
  also have "\<dots> = ''b 2'' @ [NL]"
    unfolding idx0 by (simp add: check_def)
  finally have m: "master_local ?cs (chunk_size 5 4) ''b'' = ''b 2'' @ [NL]" .
  have d: "master_distribute ?cs 4 (\<lambda>_. []) i
           = send_string (concat (map (\<lambda>j. encode_contact (?cs ! j)) (rank_indices 5 4 i))) []"
    if "1 \<le> i \<and> i < 4" for i
    using w [THEN conjunct2, THEN conjunct1, rule_format, OF that] by simp
  have "(1::nat) \<le> 2 \<and> (2::nat) < 4" by simp
  from d [OF this] have d2: "master_distribute ?cs 4 (\<lambda>_. []) 2 = send_string (''e,5'' @ [NL]) []"
    unfolding idx2 by (simp add: encode_contact_def)
  have "(1::nat) \<le> 3 \<and> (3::nat) < 4" by simp
  from d [OF this] have d3: "master_distribute ?cs 4 (\<lambda>_. []) 3 = send_string [] []"
    unfolding idx3 by simp
  show ?thesis by (intro conjI one len t m d2 d3)
qed

text \<open>
  The closed form of claim C2 does not hold for every T and S: for T = 5 and S = 4 the
  chunk is 2, rank 2 is sent one record although it is not the last rank, rank 3 is sent
  none, and T - (S - 1) * chunk is negative.
\<close>

theorem last_block_length_counterexample:
  "length (rank_indices 5 4 2) \<noteq> chunk_size 5 4
   \<and> int (length (rank_indices 5 4 3)) \<noteq> int 5 - (int 4 - 1) * int (chunk_size 5 4)
   \<and> chunk_size 5 4 = 2
   \<and> master_distribute [\<lparr>name = ''a'', phone = ''1''\<rparr>, \<lparr>name = ''b'', phone = ''2''\<rparr>,
              \<lparr>name = ''c'', phone = ''3''\<rparr>, \<lparr>name = ''d'', phone = ''4''\<rparr>,
              \<lparr>name = ''e'', phone = ''5''\<rparr>] 4 (\<lambda>_. []) 2 = send_string (''e,5'' @ [NL]) []
   \<and> master_distribute [\<lparr>name = ''a'', phone = ''1''\<rparr>, \<lparr>name = ''b'', phone = ''2''\<rparr>,
              \<lparr>name = ''c'', phone = ''3''\<rparr>, \<lparr>name = ''d'', phone = ''4''\<rparr>,
              \<lparr>name = ''e'', phone = ''5''\<rparr>] 4 (\<lambda>_. []) 3 = send_string [] []"
proof (intro conjI)
  show "length (rank_indices 5 4 2) \<noteq> chunk_size 5 4"
    by (simp add: rank_indices_def chunk_size_def)
  show "int (length (rank_indices 5 4 3)) \<noteq> int 5 - (int 4 - 1) * int (chunk_size 5 4)"
    by (simp add: rank_indices_def chunk_size_def)
  show "chunk_size 5 4 = 2" by (simp add: chunk_size_def)
  show "master_distribute [\<lparr>name = ''a'', phone = ''1''\<rparr>, \<lparr>name = ''b'', phone = ''2''\<rparr>,
              \<lparr>name = ''c'', phone = ''3''\<rparr>, \<lparr>name = ''d'', phone = ''4''\<rparr>,
              \<lparr>name = ''e'', phone = ''5''\<rparr>] 4 (\<lambda>_. []) 2 = send_string (''e,5'' @ [NL]) []"
    by (simp add: master_distribute_channel chunk_size_def vector_to_string_def)
  show "master_distribute [\<lparr>name = ''a'', phone = ''1''\<rparr>, \<lparr>name = ''b'', phone = ''2''\<rparr>,
              \<lparr>name = ''c'', phone = ''3''\<rparr>, \<lparr>name = ''d'', phone = ''4''\<rparr>,
              \<lparr>name = ''e'', phone = ''5''\<rparr>] 4 (\<lambda>_. []) 3 = send_string [] []"
    by (simp add: master_distribute_channel chunk_size_def vector_to_string_def)
qed

text \<open>
  Claim C2, as the code has it. With T records, S >= 1 ranks and chunk = ceil(T / S), and
  provided the first S - 1 full blocks fit, (S - 1) * chunk <= T, the last rank's block has
  T - (S - 1) * chunk records and every block of the ranks 0, ..., S - 2 has exactly chunk
  records, where the block of rank 0 is what the coordinator's own loop searches and the
  block of a worker rank is what vector_to_string writes into the text sent to it.
\<close>

theorem last_block_length:
  assumes "1 \<le> S" and "length contacts = T" and "(S - 1) * chunk_size T S \<le> T"
  shows "int (length (rank_indices T S (S - 1))) = int T - (int S - 1) * int (chunk_size T S)
       \<and> (\<forall>i. i + 1 < S \<longrightarrow> length (rank_indices T S i) = chunk_size T S)
       \<and> master_local contacts (chunk_size T S) search
           = concat (map (\<lambda>j. check (contacts ! j) search) (rank_indices T S 0))
       \<and> (\<forall>i. 1 \<le> i \<and> i < S \<longrightarrow>
             master_distribute contacts S (\<lambda>_. []) i
               = send_string (vector_to_string contacts (i * chunk_size T S)
                                                ((i + 1) * chunk_size T S)) []
             \<and> vector_to_string contacts (i * chunk_size T S) ((i + 1) * chunk_size T S)
               = concat (map (\<lambda>j. encode_contact (contacts ! j)) (rank_indices T S i)))"
proof (intro conjI allI impI)
  let ?c = "chunk_size T S"
  have cov: "T \<le> S * ?c" by (rule chunk_covers [OF assms(1)])
  have "S * ?c = (S - 1) * ?c + ?c" using assms(1) by (cases S) simp_all
  with cov have m: "min ((S - 1 + 1) * ?c) T = T" using assms(1) by simp
  have "length (rank_indices T S (S - 1)) = T - (S - 1) * ?c"
    unfolding rank_indices_range m by simp
  then show "int (length (rank_indices T S (S - 1))) = int T - (int S - 1) * int ?c"
    using assms by (simp add: of_nat_diff)
next
  fix i assume i: "i + 1 < S"
  let ?c = "chunk_size T S"
  have "(i + 1) * ?c \<le> (S - 1) * ?c" using i by (intro mult_le_mono1) simp
  then have "(i + 1) * ?c \<le> T" using assms(3) by simp
  then show "length (rank_indices T S i) = ?c"
    by (simp add: rank_indices_range)
next
  show "master_local contacts (chunk_size T S) search
           = concat (map (\<lambda>j. check (contacts ! j) search) (rank_indices T S 0))"
    by (rule loops_follow_rank_indices(1) [OF assms(2)])
next
  fix i assume i: "1 \<le> i \<and> i < S"
  show "master_distribute contacts S (\<lambda>_. []) i
               = send_string (vector_to_string contacts (i * chunk_size T S)
                                                ((i + 1) * chunk_size T S)) []"
    using i by (intro loops_follow_rank_indices(2) [OF assms(2)]) simp_all
  show "vector_to_string contacts (i * chunk_size T S) ((i + 1) * chunk_size T S)
               = concat (map (\<lambda>j. encode_contact (contacts ! j)) (rank_indices T S i))"
    using i by (intro loops_follow_rank_indices(3) [OF assms(2)]) simp
qed

theorem last_block_length_witness:
  "(1::nat) \<le> 2
   \<and> length [\<lparr>name = ''a'', phone = ''1''\<rparr>, \<lparr>name = ''b'', phone = ''2''\<rparr>,
              \<lparr>name = ''c'', phone = ''3''\<rparr>] = 3
   \<and> (2 - 1) * chunk_size 3 2 \<le> 3
   \<and> int (length (rank_indices 3 2 (2 - 1))) = 1
   \<and> length (rank_indices 3 2 0) = 2
   \<and> master_distribute [\<lparr>name = ''a'', phone = ''1''\<rparr>, \<lparr>name = ''b'', phone = ''2''\<rparr>,
              \<lparr>name = ''c'', phone = ''3''\<rparr>] 2 (\<lambda>_. []) 1 = send_string (''c,3'' @ [NL]) []"
proof -
  let ?cs = "[\<lparr>name = ''a'', phone = ''1''\<rparr>, \<lparr>name = ''b'', phone = ''2''\<rparr>,
              \<lparr>name = ''c'', phone = ''3''\<rparr>]"
  have one: "(1::nat) \<le> 2" by simp
  have len: "length ?cs = 3" by simp
  have c: "chunk_size 3 2 = 2" by (simp add: chunk_size_def)
  have fit: "(2 - 1) * chunk_size 3 2 \<le> 3" unfolding c by simp
  note w = last_block_length [OF one len fit]
  have l: "int (length (rank_indices 3 2 (2 - 1))) = 1"
    using w [THEN conjunct1] unfolding c by simp
  have "(0::nat) + 1 < 2" by simp
  from w [THEN conjunct2, THEN conjunct1, rule_format, OF this]
  have l0: "length (rank_indices 3 2 0) = 2" unfolding c .
  have idx1: "rank_indices 3 2 1 = [2]"
    by (simp add: rank_indices_def chunk_size_def)
  have "(1::nat) \<le> 1 \<and> (1::nat) < 2" by simp
  from w [THEN conjunct2, THEN conjunct2, THEN conjunct2, rule_format, OF this]
  have "master_distribute ?cs 2 (\<lambda>_. []) 1
        = send_string (concat (map (\<lambda>j. encode_contact (?cs ! j)) (rank_indices 3 2 1))) []"
    by simp
  then have d: "master_distribute ?cs 2 (\<lambda>_. []) 1 = send_string (''c,3'' @ [NL]) []"
    unfolding idx1 by (simp add: encode_contact_def)
  show ?thesis by (intro conjI one len fit l l0 d)
qed

subsection \<open>Partition invariance of the search\<close>

lemma rank_indices_bound: "j \<in> set (rank_indices T S i) \<Longrightarrow> j < T"
  by (simp add: rank_indices_range)

lemma check_no_NUL: "NUL \<notin> set (name c) \<Longrightarrow> NUL \<notin> set (phone c) \<Longrightarrow> NUL \<notin> set (check c search)"
  by (simp add: check_def)

lemma encode_no_NUL: "NUL \<notin> set (name c) \<Longrightarrow> NUL \<notin> set (phone c) \<Longrightarrow> NUL \<notin> set (encode_contact c)"
  by (simp add: encode_contact_def)

lemma concat_map_concat:
  "concat (map f (concat xss)) = concat (map (\<lambda>xs. concat (map f xs)) xss)"
  by (induction xss) simp_all

lemma takeWhile_all: "x \<notin> set xs \<Longrightarrow> takeWhile (\<lambda>c. c \<noteq> x) xs = xs"
  by (induction xs) auto

lemma worker_result:
  assumes "\<forall>c \<in> set sl. CHR '','' \<notin> set (name c) \<and> NL \<notin> set (name c) \<and> NL \<notin> set (phone c)
              \<and> NUL \<notin> set (name c) \<and> NUL \<notin> set (phone c)"
  shows "worker search (send_string (concat (map encode_contact sl)) []) []
         = Some ([], send_string (concat (map (\<lambda>c. check c search) sl)) [])"
proof -
  let ?text = "concat (map encode_contact sl)"
  have "NUL \<notin> set ?text"
    using assms by (auto simp: encode_contact_def)
  then have tw: "takeWhile (\<lambda>c. c \<noteq> NUL) ?text = ?text"
    by (rule takeWhile_all)
  have recv: "receive_string (send_string ?text []) = Some (?text, [])"
    unfolding receive_send_string tw ..
  have dec: "string_to_contacts ?text = sl"
    using assms by (intro decode_encoded) simp
  show ?thesis
    by (simp add: worker_def recv dec worker_search_concat)
qed

lemma phonebook_partition_invariant:
  assumes S: "1 \<le> S"
    and cl: "\<forall>c \<in> set cs. CHR '','' \<notin> set (name c) \<and> NL \<notin> set (name c) \<and> NL \<notin> set (phone c)
              \<and> NUL \<notin> set (name c) \<and> NUL \<notin> set (phone c)"
  shows "phonebook_run cs S search = Some (worker_search cs search)"
proof -
  let ?T = "length cs"
  let ?idx = "rank_indices ?T S"
  let ?g = "\<lambda>j. check (cs ! j) search"
  let ?res = "\<lambda>i. concat (map ?g (?idx i))"
  let ?down = "master_distribute cs S (\<lambda>_. [])"
  let ?up = "\<lambda>i. case worker search (?down i) [] of None \<Rightarrow> [] | Some (_, outbox) \<Rightarrow> outbox"
  have mem: "cs ! j \<in> set cs" if "j \<in> set (?idx i)" for i j
    using rank_indices_bound [OF that] by simp
  have up: "?up i = send_string (?res i) [] \<and> NUL \<notin> set (?res i)" if "i \<in> set [1 ..< S]" for i
  proof -
    from that have i: "1 \<le> i" "i < S" by simp_all
    have "\<forall>c \<in> set (map (\<lambda>j. cs ! j) (?idx i)). CHR '','' \<notin> set (name c) \<and> NL \<notin> set (name c)
             \<and> NL \<notin> set (phone c) \<and> NUL \<notin> set (name c) \<and> NUL \<notin> set (phone c)"
      using cl mem by auto
    from worker_result [OF this, of search]
    have "worker search (?down i) [] = Some ([], send_string (?res i) [])"
      by (simp add: master_distribute_rank [OF i] comp_def)
    moreover have "NUL \<notin> set (?res i)"
    proof -
      have "NUL \<notin> set (check (cs ! j) search)" if "j \<in> set (?idx i)" for j
        using cl mem [OF that] by (intro check_no_NUL) simp_all
      then show ?thesis by auto
    qed
    ultimately show ?thesis by simp
  qed
  have "master_collect [1 ..< S] ?up (?res 0) = Some (?res 0 @ concat (map ?res [1 ..< S]))"
    by (rule master_collect_all) (use up in simp_all)
  moreover have "?res 0 @ concat (map ?res [1 ..< S]) = concat (map ?res [0 ..< S])"
    using S by (simp add: upt_conv_Cons)
  moreover have "concat (map ?res [0 ..< S]) = concat (map ?g (concat (map ?idx [0 ..< S])))"
    by (simp only: concat_map_concat map_map comp_def)
  moreover have "concat (map ?g (concat (map ?idx [0 ..< S]))) = concat (map ?g [0 ..< ?T])"
    by (simp only: ranks_tile [OF S])
  moreover have "map ?g [0 ..< ?T] = map (\<lambda>c. check c search) (map (\<lambda>j. cs ! j) [0 ..< ?T])"
    by (simp add: comp_def)
  ultimately have "master_collect [1 ..< S] ?up (?res 0) = Some (worker_search cs search)"
    by (simp only: worker_search_concat map_nth)
  then show ?thesis
    unfolding phonebook_run_def Let_def master_local_concat .
qed

subsection \<open>Partition invariance of the matrix product\<close>

lemma smod_nonneg: "0 \<le> (a::int) \<Longrightarrow> a smod 100 = a mod 100"
  by (cases "a = 0") (simp_all add: smod_int_alt_def)

lemma foldl_add_sum_list:
  "foldl (\<lambda>r l. r + t l) (acc::int) xs = acc + sum_list (map t xs)"
  by (induction xs arbitrary: acc) simp_all

lemma index3_bound:
  assumes "k < K" and "i < M" and "j < (N::nat)"
  shows "(k * M + i) * N + j < K * M * N"
proof -
  have "Suc k * M \<le> K * M" using assms(1) by (intro mult_le_mono1) simp
  then have "k * M + i + 1 \<le> K * M" using assms(2) by simp
  then have "(k * M + i + 1) * N \<le> K * M * N" by (rule mult_le_mono1)
  then show ?thesis using assms(3) by (simp add: algebra_simps)
qed

lemma scatter_block_nth:
  assumes "idx < count" and "r * count \<le> length buf"
  shows "scatter_block buf count r ! idx = buf ! (r * count + idx)"
  using assms by (simp add: scatter_block_def)

lemma local_cell_block:
  assumes "k < Kl" and "i < M" and "j < P"
    and "r * (Kl * M * N) \<le> length A" and "r * (Kl * N * P) \<le> length B"
  shows "local_cell M N P (scatter_block A (Kl * M * N) r) (scatter_block B (Kl * N * P) r) k i j
         = local_cell M N P A B (r * Kl + k) i j"
proof -
  have a: "scatter_block A (Kl * M * N) r ! ((k * M + i) * N + l)
           = A ! (((r * Kl + k) * M + i) * N + l)" if "l < N" for l
  proof -
    have "scatter_block A (Kl * M * N) r ! ((k * M + i) * N + l)
          = A ! (r * (Kl * M * N) + ((k * M + i) * N + l))"
      by (rule scatter_block_nth [OF index3_bound [OF assms(1,2) that] assms(4)])
    also have "r * (Kl * M * N) + ((k * M + i) * N + l) = ((r * Kl + k) * M + i) * N + l"
      by (simp add: algebra_simps)
    finally show ?thesis .
  qed
  have b: "scatter_block B (Kl * N * P) r ! ((k * N + l) * P + j)
           = B ! (((r * Kl + k) * N + l) * P + j)" if "l < N" for l
  proof -
    have "scatter_block B (Kl * N * P) r ! ((k * N + l) * P + j)
          = B ! (r * (Kl * N * P) + ((k * N + l) * P + j))"
      by (rule scatter_block_nth [OF index3_bound [OF assms(1) that assms(3)] assms(5)])
    also have "r * (Kl * N * P) + ((k * N + l) * P + j) = ((r * Kl + k) * N + l) * P + j"
      by (simp add: algebra_simps)
    finally show ?thesis .
  qed
  show ?thesis
    unfolding local_cell_def
    by (rule arg_cong [where f = "\<lambda>x. x smod 100"], rule foldl_cong) (simp_all add: a b)
qed

lemma one_matrix_block:
  assumes "k < Kl" and "r * (Kl * M * N) \<le> length A" and "r * (Kl * N * P) \<le> length B"
  shows "one_matrix M N P (scatter_block A (Kl * M * N) r) (scatter_block B (Kl * N * P) r) k
         = one_matrix M N P A B (r * Kl + k)"
  unfolding one_matrix_def
  by (intro arg_cong [where f = concat] map_cong refl local_cell_block) (use assms in simp_all)

lemma blocks_upt:
  "concat (map (\<lambda>r. map (\<lambda>k. f (r * n + k)) [0 ..< n]) [0 ..< m]) = map f [0 ..< m * n]"
proof (induction m)
  case 0
  show ?case by simp
next
  case (Suc m)
  have split: "[0 ..< m * n + n] = [0 ..< m * n] @ [m * n ..< m * n + n]"
    by (rule upt_add_eq_append) simp
  have shift: "map f [m * n ..< m * n + n] = map (\<lambda>k. f (m * n + k)) [0 ..< n]"
    by (rule nth_equalityI) simp_all
  have "concat (map (\<lambda>r. map (\<lambda>k. f (r * n + k)) [0 ..< n]) [0 ..< Suc m])
        = concat (map (\<lambda>r. map (\<lambda>k. f (r * n + k)) [0 ..< n]) [0 ..< m])
          @ map (\<lambda>k. f (m * n + k)) [0 ..< n]"
    by simp
  also have "\<dots> = map f [0 ..< m * n] @ map f [m * n ..< m * n + n]"
    by (simp only: Suc.IH shift)
  also have "\<dots> = map f [0 ..< m * n + n]"
    by (simp only: split map_append)
  also have "m * n + n = Suc m * n" by simp
  finally show ?case .
qed

lemma concat_map_concat_blocks:
  "concat (map (\<lambda>r. concat (map (h r) ks)) rs) = concat (concat (map (\<lambda>r. map (h r) ks) rs))"
  by (induction rs) simp_all

lemma matrix_partition_invariant:
  assumes "1 \<le> S" and "S dvd K" and "length A = K * M * N" and "length B = K * N * P"
  shows "gathered (matrix_run K M N P S A B) = Some (matrix_kernel K M N P A B)"
proof -
  let ?Kl = "K div S"
  let ?f = "one_matrix M N P A B"
  have K: "K = S * ?Kl" using assms(2) by simp
  have loc: "matrix_kernel ?Kl M N P (scatter_block A (?Kl * M * N) r) (scatter_block B (?Kl * N * P) r)
             = concat (map (\<lambda>k. ?f (r * ?Kl + k)) [0 ..< ?Kl])" if "r < S" for r
  proof -
    have "r * ?Kl \<le> S * ?Kl" using that by simp
    then have rK: "r * ?Kl \<le> K" using K by simp
    have "r * ?Kl * (M * N) \<le> K * (M * N)" using rK by (rule mult_le_mono1)
    then have la: "r * (?Kl * M * N) \<le> length A" using assms(3) by (simp add: mult.assoc)
    have "r * ?Kl * (N * P) \<le> K * (N * P)" using rK by (rule mult_le_mono1)
    then have lb: "r * (?Kl * N * P) \<le> length B" using assms(4) by (simp add: mult.assoc)
    show ?thesis
      unfolding matrix_kernel_def
      by (intro arg_cong [where f = concat] map_cong refl one_matrix_block) (use la lb in simp_all)
  qed
  have "gather (\<lambda>r. matrix_kernel ?Kl M N P (scatter_block A (?Kl * M * N) r)
                                             (scatter_block B (?Kl * N * P) r)) S
        = concat (map (\<lambda>r. concat (map (\<lambda>k. ?f (r * ?Kl + k)) [0 ..< ?Kl])) [0 ..< S])"
    unfolding gather_def
    by (intro arg_cong [where f = concat] map_cong refl loc) simp
  also have "\<dots> = concat (concat (map (\<lambda>r. map (\<lambda>k. ?f (r * ?Kl + k)) [0 ..< ?Kl]) [0 ..< S]))"
    by (rule concat_map_concat_blocks)
  also have "\<dots> = concat (map ?f [0 ..< S * ?Kl])"
    by (simp only: blocks_upt)
  also have "\<dots> = matrix_kernel K M N P A B"
    using K by (simp add: matrix_kernel_def)
  finally show ?thesis
    using assms(2) by (simp add: matrix_run_def Let_def)
qed

subsection \<open>Partition invariance\<close>

text \<open>
  Claim C4 does not hold for every dataset of the search: the input line a,b is read as the
  record with the name ,b and an empty phone; searched for b, the whole list of two records
  gives one hit, while on two ranks the worker decodes its text ,b, as the record with an
  empty name and finds nothing.
\<close>

theorem partition_invariance_counterexample:
  "read_phonebook [[QUOTE] @ ''x'' @ [QUOTE] @ '','' @ [QUOTE] @ ''1'' @ [QUOTE] @ [NL] @ ''a,b'' @ [NL]] []
     = Inr [\<lparr>name = ''x'', phone = ''1''\<rparr>, \<lparr>name = '',b'', phone = []\<rparr>]
   \<and> 2 dvd length [\<lparr>name = ''x'', phone = ''1''\<rparr>, \<lparr>name = '',b'', phone = []\<rparr>]
   \<and> worker_search [\<lparr>name = ''x'', phone = ''1''\<rparr>, \<lparr>name = '',b'', phone = []\<rparr>] ''b''
       = '',b '' @ [NL]
   \<and> phonebook_run [\<lparr>name = ''x'', phone = ''1''\<rparr>, \<lparr>name = '',b'', phone = []\<rparr>] 2 ''b''
       = Some []
   \<and> phonebook_run [\<lparr>name = ''x'', phone = ''1''\<rparr>, \<lparr>name = '',b'', phone = []\<rparr>] 2 ''b''
       \<noteq> Some (worker_search [\<lparr>name = ''x'', phone = ''1''\<rparr>, \<lparr>name = '',b'', phone = []\<rparr>] ''b'')"
proof (intro conjI)
  show "read_phonebook [[QUOTE] @ ''x'' @ [QUOTE] @ '','' @ [QUOTE] @ ''1'' @ [QUOTE] @ [NL] @ ''a,b'' @ [NL]] []
     = Inr [\<lparr>name = ''x'', phone = ''1''\<rparr>, \<lparr>name = '',b'', phone = []\<rparr>]"
    by (simp add: getlines_def phonebook_line_def substr_def size_t_of_int_def)
  show "2 dvd length [\<lparr>name = ''x'', phone = ''1''\<rparr>, \<lparr>name = '',b'', phone = []\<rparr>]"
    by simp
  show "worker_search [\<lparr>name = ''x'', phone = ''1''\<rparr>, \<lparr>name = '',b'', phone = []\<rparr>] ''b''
       = '',b '' @ [NL]"
    by (simp add: worker_search_def add_match_def check_def)
  show "phonebook_run [\<lparr>name = ''x'', phone = ''1''\<rparr>, \<lparr>name = '',b'', phone = []\<rparr>] 2 ''b''
       = Some []"
    by (simp add: phonebook_run_def master_distribute_def chunk_size_def vector_to_string_def
        send_string_def receive_string_def worker_def string_to_contacts_def getlines_def
        line_to_contact_def map_filter_simps worker_search_def master_local_def add_match_def
        check_def upt_rec)
  show "phonebook_run [\<lparr>name = ''x'', phone = ''1''\<rparr>, \<lparr>name = '',b'', phone = []\<rparr>] 2 ''b''
       \<noteq> Some (worker_search [\<lparr>name = ''x'', phone = ''1''\<rparr>, \<lparr>name = '',b'', phone = []\<rparr>] ''b'')"
    by (simp add: phonebook_run_def master_distribute_def chunk_size_def vector_to_string_def
        send_string_def receive_string_def worker_def string_to_contacts_def getlines_def
        line_to_contact_def map_filter_simps worker_search_def master_local_def add_match_def
        check_def upt_rec)
qed

text \<open>
  Claim C4, as the code has it. For the search, with S >= 1 ranks where S divides the
  number of records, and records whose names contain no comma and whose names and phones
  contain neither a newline nor a NUL byte, the text the coordinator assembles (its own
  hits, then each worker's hits in rank order) is the text of the search kernel run once
  over the whole list. For the matrix product, with S >= 1 ranks where S divides K and
  buffers of the declared sizes, the gathered result buffer is the kernel's result on the
  whole input.
\<close>

theorem partition_invariance:
  "(1 \<le> S \<and> S dvd length cs
      \<and> (\<forall>c \<in> set cs. CHR '','' \<notin> set (name c) \<and> NL \<notin> set (name c) \<and> NL \<notin> set (phone c)
                         \<and> NUL \<notin> set (name c) \<and> NUL \<notin> set (phone c))
      \<longrightarrow> phonebook_run cs S search = Some (worker_search cs search))
   \<and> (1 \<le> S' \<and> S' dvd K \<and> length A = K * M * N \<and> length B = K * N * P
      \<longrightarrow> gathered (matrix_run K M N P S' A B) = Some (matrix_kernel K M N P A B))"
  using phonebook_partition_invariant [of S cs search]
    matrix_partition_invariant [of S' K A M N B P]
  by blast

theorem partition_invariance_witness:
  "(1::nat) \<le> 2
   \<and> 2 dvd length [\<lparr>name = ''Ann'', phone = ''1''\<rparr>, \<lparr>name = ''Bob'', phone = ''2''\<rparr>]
   \<and> phonebook_run [\<lparr>name = ''Ann'', phone = ''1''\<rparr>, \<lparr>name = ''Bob'', phone = ''2''\<rparr>] 2 ''Bob''
       = Some (''Bob 2'' @ [NL])
   \<and> (2::nat) dvd 2 \<and> length [7, 3 :: int] = 2 * 1 * 1 \<and> length [13, 4 :: int] = 2 * 1 * 1
   \<and> gathered (matrix_run 2 1 1 1 2 [7, 3] [13, 4]) = Some [91, 12]"
proof -
  let ?cs = "[\<lparr>name = ''Ann'', phone = ''1''\<rparr>, \<lparr>name = ''Bob'', phone = ''2''\<rparr>]"
  have h1: "(1::nat) \<le> 2 \<and> 2 dvd length ?cs
      \<and> (\<forall>c \<in> set ?cs. CHR '','' \<notin> set (name c) \<and> NL \<notin> set (name c) \<and> NL \<notin> set (phone c)
                         \<and> NUL \<notin> set (name c) \<and> NUL \<notin> set (phone c))"
    by simp
  have h2: "(1::nat) \<le> 2 \<and> (2::nat) dvd 2 \<and> length [7, 3 :: int] = 2 * 1 * 1
            \<and> length [13, 4 :: int] = 2 * 1 * 1"
    by simp
  note pi = partition_invariance [of 2 ?cs "''Bob''" 2 2 "[7, 3]" 1 1 "[13, 4]" 1]
  have a: "phonebook_run ?cs 2 ''Bob'' = Some (worker_search ?cs ''Bob'')"
    using pi [THEN conjunct1] h1 by (rule mp)
  have b: "gathered (matrix_run 2 1 1 1 2 [7, 3] [13, 4]) = Some (matrix_kernel 2 1 1 1 [7, 3] [13, 4])"
    using pi [THEN conjunct2] h2 by (rule mp)
  have c: "worker_search ?cs ''Bob'' = ''Bob 2'' @ [NL]"
    by (simp add: worker_search_def add_match_def check_def)
  have d: "matrix_kernel 2 1 1 1 [7, 3] [13, 4] = [91, 12]"
    by (simp add: matrix_kernel_def one_matrix_def local_cell_def upt_rec smod_int_alt_def)
  show ?thesis using h1 h2 a b unfolding c d by simp
qed


subsection \<open>Reading phonebook lines\<close>






subsection \<open>Strict partitioning\<close>

text \<open>
  Claim C3. When the number of matrices K is not divisible by the number of ranks, the run
  of the matrix program ends with exit code 1 and its calls contain no scatter, no local
  multiplication and no gather; nothing is gathered.
\<close>

theorem strict_rejects:
  "K mod S \<noteq> 0 \<Longrightarrow>
     exit_code (matrix_run K M N P S A B) = 1
     \<and> Scatter \<notin> set (events (matrix_run K M N P S A B))
     \<and> Compute \<notin> set (events (matrix_run K M N P S A B))
     \<and> Gather \<notin> set (events (matrix_run K M N P S A B))
     \<and> gathered (matrix_run K M N P S A B) = None"
  by (simp add: matrix_run_def)

theorem strict_rejects_witness:
  "(100::nat) mod 3 \<noteq> 0
   \<and> exit_code (matrix_run 100 50 50 50 3 [] []) = 1
   \<and> events (matrix_run 100 50 50 50 3 [] [])
       = [Bcast, Bcast, Bcast, Bcast, PrintNotDivisible, Finalize]"
  using strict_rejects [of 100 3 50 50 50 "[]" "[]"] by (simp add: matrix_run_def)

subsection \<open>The matrix kernel\<close>

lemma local_cell_spec:
  assumes "\<forall>l < N. 0 \<le> localA ! ((k * M + i) * N + l) * localB ! ((k * N + l) * P + j)"
  shows "local_cell M N P localA localB k i j
         = (\<Sum>l = 0 ..< N. (localA ! ((k * M + i) * N + l) * localB ! ((k * N + l) * P + j)) mod 100) mod 100"
proof -
  let ?t = "\<lambda>l. localA ! ((k * M + i) * N + l) * localB ! ((k * N + l) * P + j)"
  have "foldl (\<lambda>r l. r + ?t l smod 100) 0 [0 ..< N] = sum_list (map (\<lambda>l. ?t l smod 100) [0 ..< N])"
    by (simp add: foldl_add_sum_list)
  also have "map (\<lambda>l. ?t l smod 100) [0 ..< N] = map (\<lambda>l. ?t l mod 100) [0 ..< N]"
    using assms by (intro map_cong refl smod_nonneg) simp
  also have "sum_list (map (\<lambda>l. ?t l mod 100) [0 ..< N]) = (\<Sum>l = 0 ..< N. ?t l mod 100)"
    by (simp add: interv_sum_list_conv_sum_set_nat)
  finally have f: "foldl (\<lambda>r l. r + ?t l smod 100) 0 [0 ..< N] = (\<Sum>l = 0 ..< N. ?t l mod 100)" .
  have "0 \<le> (\<Sum>l = 0 ..< N. ?t l mod 100)" by (intro sum_nonneg) simp
  then show ?thesis unfolding local_cell_def f by (rule smod_nonneg)
qed

lemma concat_blocks_nth:
  assumes "\<forall>k < n. length (g k) = m" and "k < n" and "i < m"
  shows "concat (map g [0 ..< n]) ! (k * m + i) = g k ! i"
  using assms
proof (induction n)
  case 0
  then show ?case by simp
next
  case (Suc n)
  have len: "length (concat (map g [0 ..< n])) = n * m"
    using Suc.prems(1) by (induction n) simp_all
  show ?case
  proof (cases "k < n")
    case True
    then have "Suc k * m \<le> n * m" by (intro mult_le_mono1) simp
    then have "k * m + i < n * m" using Suc.prems(3) by simp
    then show ?thesis using Suc True by (simp add: nth_append len)
  next
    case False
    then have "k = n" using Suc.prems(2) by simp
    then show ?thesis by (simp add: nth_append len)
  qed
qed

lemma length_one_matrix: "length (one_matrix M N P A B k) = M * P"
proof -
  have "length (concat (map (\<lambda>i. map (\<lambda>j. local_cell M N P A B k i j) [0 ..< P]) [0 ..< m])) = m * P" for m
    by (induction m) simp_all
  then show ?thesis by (simp add: one_matrix_def)
qed

lemma one_matrix_nth:
  assumes "i < M" and "j < P"
  shows "one_matrix M N P A B k ! (i * P + j) = local_cell M N P A B k i j"
proof -
  have "concat (map (\<lambda>i. map (\<lambda>j. local_cell M N P A B k i j) [0 ..< P]) [0 ..< M]) ! (i * P + j)
        = map (\<lambda>j. local_cell M N P A B k i j) [0 ..< P] ! j"
    using assms by (intro concat_blocks_nth) simp_all
  then show ?thesis using assms(2) by (simp add: one_matrix_def)
qed

lemma matrix_kernel_nth:
  assumes "k < Kl" and "i < M" and "j < P"
  shows "matrix_kernel Kl M N P A B ! ((k * M + i) * P + j) = local_cell M N P A B k i j"
proof -
  have "Suc i * P \<le> M * P" using assms(2) by (intro mult_le_mono1) simp
  then have b: "i * P + j < M * P" using assms(3) by simp
  have "matrix_kernel Kl M N P A B ! (k * (M * P) + (i * P + j)) = one_matrix M N P A B k ! (i * P + j)"
    unfolding matrix_kernel_def
    using assms(1) b by (intro concat_blocks_nth) (simp_all add: length_one_matrix)
  moreover have "k * (M * P) + (i * P + j) = (k * M + i) * P + j" by (simp add: algebra_simps)
  ultimately show ?thesis using assms by (simp add: one_matrix_nth)
qed

lemma matrix_kernel_elements:
  "x \<in> set (matrix_kernel Kl M N P A B)
   \<Longrightarrow> \<exists>k i j. k < Kl \<and> i < M \<and> j < P \<and> x = local_cell M N P A B k i j"
  by (fastforce simp: matrix_kernel_def one_matrix_def)

lemma local_cell_in_range:
  assumes A: "\<forall>x \<in> set localA. 0 \<le> x \<and> x \<le> 99" and B: "\<forall>x \<in> set localB. 0 \<le> x \<and> x \<le> 99"
    and lenA: "length localA = Kl * M * N" and lenB: "length localB = Kl * N * P"
    and k: "k < Kl" and i: "i < M" and j: "j < P"
  shows "local_cell M N P localA localB k i j
         = (\<Sum>l = 0 ..< N. (localA ! ((k * M + i) * N + l) * localB ! ((k * N + l) * P + j)) mod 100) mod 100"
proof (rule local_cell_spec, intro allI impI)
  fix l assume l: "l < N"
  have "localA ! ((k * M + i) * N + l) \<in> set localA"
    using index3_bound [OF k i l] lenA by simp
  moreover have "localB ! ((k * N + l) * P + j) \<in> set localB"
    using index3_bound [OF k l j] lenB by simp
  ultimately show "0 \<le> localA ! ((k * M + i) * N + l) * localB ! ((k * N + l) * P + j)"
    using A B by (intro mult_nonneg_nonneg) simp_all
qed

text \<open>
  Claim C7. With all elements of the local input buffers in [0, 99], the result element
  [k][i][j] of the kernel is the sum over the shared dimension of the products, each
  reduced modulo 100, and that sum reduced modulo 100; every element of the result lies in
  [0, 99]. For the shape 1 x 1 x 1 x 1 with the elements 7 and 13 the result is 91.
\<close>

theorem matrix_kernel_cell:
  assumes "\<forall>x \<in> set localA. 0 \<le> x \<and> x \<le> 99" and "\<forall>x \<in> set localB. 0 \<le> x \<and> x \<le> 99"
    and "length localA = Kl * M * N" and "length localB = Kl * N * P"
  shows "(\<forall>k < Kl. \<forall>i < M. \<forall>j < P.
            matrix_kernel Kl M N P localA localB ! ((k * M + i) * P + j)
            = (\<Sum>l = 0 ..< N. (localA ! ((k * M + i) * N + l) * localB ! ((k * N + l) * P + j)) mod 100)
              mod 100)
       \<and> (\<forall>x \<in> set (matrix_kernel Kl M N P localA localB). 0 \<le> x \<and> x \<le> 99)
       \<and> matrix_kernel 1 1 1 1 [7] [13] = [91]"
proof (intro conjI allI impI ballI)
  fix k i j assume "k < Kl" "i < M" "j < P"
  then show "matrix_kernel Kl M N P localA localB ! ((k * M + i) * P + j)
            = (\<Sum>l = 0 ..< N. (localA ! ((k * M + i) * N + l) * localB ! ((k * N + l) * P + j)) mod 100)
              mod 100"
    using local_cell_in_range [OF assms] by (simp add: matrix_kernel_nth)
next
  fix x assume "x \<in> set (matrix_kernel Kl M N P localA localB)"
  then obtain k i j where kij: "k < Kl" "i < M" "j < P"
    and x: "x = local_cell M N P localA localB k i j"
    using matrix_kernel_elements by blast
  have "x = (\<Sum>l = 0 ..< N. (localA ! ((k * M + i) * N + l) * localB ! ((k * N + l) * P + j)) mod 100)
            mod 100"
    unfolding x by (rule local_cell_in_range [OF assms kij])
  then have "0 \<le> x \<and> x < 100" by simp
  then show "0 \<le> x" and "x \<le> 99" by simp_all
next
  show "matrix_kernel 1 1 1 1 [7] [13] = [91]"
    by (simp add: matrix_kernel_def one_matrix_def local_cell_def smod_int_alt_def)
qed

theorem matrix_kernel_cell_witness:
  "length [7, 3, 50, 99 :: int] = 1 * 2 * 2 \<and> length [13, 4, 0, 99 :: int] = 1 * 2 * 2
   \<and> list_all (\<lambda>x. 0 \<le> x \<and> x \<le> 99) (matrix_kernel 1 2 2 2 [7, 3, 50, 99] [13, 4, 0, 99])
   \<and> matrix_kernel 1 2 2 2 [7, 3, 50, 99] [13, 4, 0, 99] ! ((0 * 2 + 1) * 2 + 1) = 1"
proof -
  have h: "\<forall>x \<in> set [7, 3, 50, 99 :: int]. 0 \<le> x \<and> x \<le> 99"
    "\<forall>x \<in> set [13, 4, 0, 99 :: int]. 0 \<le> x \<and> x \<le> 99"
    "length [7, 3, 50, 99 :: int] = 1 * 2 * 2" "length [13, 4, 0, 99 :: int] = 1 * 2 * 2"
    by simp_all
  note w = matrix_kernel_cell [OF h]
  have r: "\<forall>x \<in> set (matrix_kernel 1 2 2 2 [7, 3, 50, 99] [13, 4, 0, 99]). 0 \<le> x \<and> x \<le> 99"
    using w by (rule conjunct2 [THEN conjunct1])
  have "matrix_kernel 1 2 2 2 [7, 3, 50, 99] [13, 4, 0, 99] ! ((0 * 2 + 1) * 2 + 1)
        = (\<Sum>l = 0 ..< 2. ([7, 3, 50, 99] ! ((0 * 2 + 1) * 2 + l) * [13, 4, 0, 99] ! ((0 * 2 + l) * 2 + 1)) mod 100)
          mod 100"
    using w [THEN conjunct1, rule_format, of 0 1 1] by simp
  also have "\<dots> = 1"
  proof -
    have "{0 ..< 2 :: nat} = {0, 1}" by auto
    then show ?thesis by simp
  qed
  finally show ?thesis using h r by (simp add: list_all_iff)
qed

end
